theory Spec2Isabelle
  imports Main "HOL-Library.Multiset"
begin

section \<open>Data model of verifier.go\<close>

text \<open>
  Go \<^verbatim>\<open>error\<close> values. The worker compares errors by identity against two
  package-level sentinels, \<^verbatim>\<open>ErrNoSuchHost\<close> and \<^verbatim>\<open>ErrFullInbox\<close>; every other
  error value is \<open>ErrOther\<close> with a tag that tells such values apart. A nil error is
  \<open>None\<close> of \<open>error option\<close>.
\<close>

datatype error = ErrNoSuchHost | ErrFullInbox | ErrOther string

text \<open>
  The parsed address the worker reads (\<^verbatim>\<open>address.Address\<close>, \<^verbatim>\<open>address.Username\<close>,
  \<^verbatim>\<open>address.Domain\<close>). Pointers to addresses are taken to be non-nil.
\<close>

record Address =
  addr_Address :: string
  addr_Username :: string
  addr_Domain :: string

text \<open>
  \<^verbatim>\<open>type Lookup struct\<close>, lines 15-28, without the XML name used only for
  serialisation. \<open>Domain'\<close> is the field \<^verbatim>\<open>Domain\<close>.
\<close>

record Lookup =
  Address :: string
  Username :: string
  Domain' :: string
  HostExists :: bool
  Deliverable :: bool
  FullInbox :: bool
  CatchAll :: bool
  Disposable :: bool
  Gravatar :: bool
  Error :: string
  ErrorDetails :: string

text \<open>
  \<^verbatim>\<open>type Verifier struct\<close>, lines 32-38: the configuration the worker and
  \<^verbatim>\<open>Verify\<close> read. \<^verbatim>\<open>maxWorkerCount\<close> is a signed Go \<^verbatim>\<open>int\<close>; it is only compared,
  never added to, so no wrap-around arises. \<open>client_Timeout\<close> is \<^verbatim>\<open>v.client.Timeout\<close>.
\<close>

record Verifier =
  maxWorkerCount :: int
  hostname :: string
  sourceAddr :: string
  client_Timeout :: int

text \<open>
  The functions verifier.go calls and does not define (they live in other files of the
  package). They are parameters of the model, and each call returns (a collaborator
  that panics or never answers is not modelled). \<open>'d\<close> is the state of a live
  \<^verbatim>\<open>*Deliverabler\<close>: a call on the session returns its answer and the session's next
  state, so two probes of one session may answer differently. The classifiers
  \<^verbatim>\<open>parseSTDErr\<close> and \<^verbatim>\<open>parseRCPTErr\<close> return the pair (basicErr, detailErr);
  \<open>Error_text\<close> is the \<^verbatim>\<open>Error()\<close> method of an error value.
\<close>

record 'd collaborators =
  NewDeliverabler :: "string \<Rightarrow> string \<Rightarrow> string \<Rightarrow> int \<Rightarrow> 'd option \<times> error option"
  HasCatchAll :: "'d \<Rightarrow> string \<Rightarrow> nat \<Rightarrow> bool \<times> 'd"
  IsDeliverable :: "'d \<Rightarrow> string \<Rightarrow> nat \<Rightarrow> error option \<times> 'd"
  IsDisposable :: "string \<Rightarrow> bool"
  HasGravatar :: "Address \<Rightarrow> bool"
  parseSTDErr :: "error \<Rightarrow> error option \<times> error option"
  parseRCPTErr :: "error \<Rightarrow> error option \<times> error option"
  Error_text :: "error \<Rightarrow> string"

text \<open>
  Modelled from the spec: \<^verbatim>\<open>errStr\<close> is not in verifier.go. The spec makes the error
  summary and detail optional strings, omitted when empty: a nil error gives the empty
  string, any other error its message.
\<close>

definition errStr :: "'d collaborators \<Rightarrow> error option \<Rightarrow> string" where
  "errStr c e = (case e of None \<Rightarrow> [] | Some x \<Rightarrow> Error_text c x)"

text \<open>
  Modelled from the spec: the probe-phase classifier \<^verbatim>\<open>parseRCPTErr\<close> is not in
  verifier.go. Section 4.5 of the spec: it recognises host absent and mailbox full and
  maps them to flags rather than error text (the worker turns a basic error
  \<^verbatim>\<open>ErrNoSuchHost\<close> into the flag; mailbox full carries no error), and every other
  failure passes through as a generic summary plus the raw error as detail. \<open>summary\<close>
  is the generic summary of a raw error, left open.
\<close>

fun parseRCPTErr_spec :: "(string \<Rightarrow> error) \<Rightarrow> error \<Rightarrow> error option \<times> error option" where
  "parseRCPTErr_spec summary ErrNoSuchHost = (Some ErrNoSuchHost, Some ErrNoSuchHost)"
| "parseRCPTErr_spec summary ErrFullInbox = (None, None)"
| "parseRCPTErr_spec summary (ErrOther s) = (Some (summary s), Some (ErrOther s))"

text \<open>The calls a worker makes on its collaborators, in the order it makes them.\<close>

datatype event =
    NewDeliverablerCall string
  | HasCatchAllCall string
  | IsDisposableCall string
  | IsDeliverableCall string
  | HasGravatarCall string
  | CloseCall string

section \<open>The worker, lines 112-195\<close>

text \<open>
  The variables of one iteration of \<^verbatim>\<open>for j := range jobs\<close> that outlive one address:
  lines 115-117 and the session of line 121.
\<close>

record 'd batch_vars =
  deliverabler :: "'d option"
  disposable :: bool
  catchAll :: bool
  hostExists :: bool
  basicErr :: "error option"
  detailErr :: "error option"

text \<open>
  Lines 115-138 for the domain \<^verbatim>\<open>j[0].Domain\<close>: open the session, classify a failure
  (host absent becomes the flag), ask for the catch-all status when there is a session,
  ask whether the domain is disposable.
\<close>

definition open_domain :: "'d collaborators \<Rightarrow> Verifier \<Rightarrow> string \<Rightarrow> 'd batch_vars \<times> event list" where
  "open_domain c v dname =
     (case NewDeliverabler c dname (hostname v) (sourceAddr v) (client_Timeout v) of
        (dlv, err) \<Rightarrow>
          let (bErr, dErr, hostEx) =
                (case err of
                   None \<Rightarrow> (None, None, True)
                 | Some e \<Rightarrow>
                     (case parseSTDErr c e of
                        (b, d) \<Rightarrow> if b = Some ErrNoSuchHost then (None, None, False) else (b, d, True)));
              (cAll, dlv', es) =
                (case dlv of
                   None \<Rightarrow> (False, None, [])
                 | Some s \<Rightarrow>
                     (case HasCatchAll c s dname 5 of
                        (r, s') \<Rightarrow> (r, Some s', [HasCatchAllCall dname])))
          in (\<lparr>deliverabler = dlv', disposable = IsDisposable c dname, catchAll = cAll,
               hostExists = hostEx, basicErr = bErr, detailErr = dErr\<rparr>,
              NewDeliverablerCall dname # es @ [IsDisposableCall dname]))"

text \<open>
  The first goroutine of the error group, lines 147-166. It returns
  (deliverable, fullInbox), the batch variables as it leaves them, and its calls.
\<close>

definition probe :: "'d collaborators \<Rightarrow> 'd batch_vars \<Rightarrow> Address \<Rightarrow> (bool \<times> bool) \<times> 'd batch_vars \<times> event list" where
  "probe c st a =
     (if catchAll st then ((True, False), st, [])
      else
        (case deliverabler st of
           None \<Rightarrow> ((False, False), st, [])
         | Some s \<Rightarrow>
             (case IsDeliverable c s (addr_Address a) 3 of
                (None, s') \<Rightarrow> ((True, False), st\<lparr>deliverabler := Some s'\<rparr>, [IsDeliverableCall (addr_Address a)])
              | (Some err, s') \<Rightarrow>
                  (case parseRCPTErr c err of
                     (b, d) \<Rightarrow>
                       ((False, err = ErrFullInbox),
                        (if b = Some ErrNoSuchHost
                         then st\<lparr>deliverabler := Some s', basicErr := None, detailErr := None, hostExists := False\<rparr>
                         else st\<lparr>deliverabler := Some s', basicErr := b, detailErr := d\<rparr>),
                        [IsDeliverableCall (addr_Address a)])))))"

text \<open>
  The body of \<^verbatim>\<open>for _, address := range j\<close>, lines 141-187. The two goroutines write
  disjoint variables and are joined by \<^verbatim>\<open>g.Wait()\<close> before the Lookup is built, so the
  body is their sequential composition; the calls are listed probe first.
\<close>

definition address_step :: "'d collaborators \<Rightarrow> 'd batch_vars \<Rightarrow> Address \<Rightarrow> 'd batch_vars \<times> Lookup \<times> event list" where
  "address_step c st a =
     (case probe c st a of
        ((dlvble, full), st', es) \<Rightarrow>
          (st',
           \<lparr>Address = addr_Address a, Username = addr_Username a, Domain' = addr_Domain a,
            HostExists = hostExists st', Deliverable = dlvble, FullInbox = full,
            CatchAll = catchAll st', Disposable = disposable st', Gravatar = HasGravatar c a,
            Error = errStr c (basicErr st'), ErrorDetails = errStr c (detailErr st')\<rparr>,
           es @ [HasGravatarCall (addr_Address a)]))"

fun addresses_loop :: "'d collaborators \<Rightarrow> 'd batch_vars \<Rightarrow> Address list \<Rightarrow> 'd batch_vars \<times> Lookup list \<times> event list" where
  "addresses_loop c st [] = (st, [], [])"
| "addresses_loop c st (a # as) =
     (case address_step c st a of
        (st1, l, es) \<Rightarrow>
          (case addresses_loop c st1 as of
             (st2, ls, es') \<Rightarrow> (st2, l # ls, es @ es')))"

text \<open>Lines 191-193: close the session if there is one.\<close>

definition job_end :: "'d batch_vars \<Rightarrow> string \<Rightarrow> event list" where
  "job_end st dname = (case deliverabler st of None \<Rightarrow> [] | Some s \<Rightarrow> [CloseCall dname])"

text \<open>
  One iteration of \<^verbatim>\<open>for j := range jobs\<close>: the Lookups sent on the results channel,
  in order, and the collaborator calls made. \<^verbatim>\<open>j[0]\<close> on an empty batch panics (index
  out of range): \<open>None\<close>.
\<close>

definition worker_job :: "'d collaborators \<Rightarrow> Verifier \<Rightarrow> Address list \<Rightarrow> (Lookup list \<times> event list) option" where
  "worker_job c v j =
     (case j of
        [] \<Rightarrow> None
      | a0 # _ \<Rightarrow>
          (case open_domain c v (addr_Domain a0) of
             (st, es0) \<Rightarrow>
               (case addresses_loop c st j of
                  (st', ls, es1) \<Rightarrow> Some (ls, es0 @ es1 @ job_end st' (addr_Domain a0)))))"

section \<open>Verify, lines 63-107\<close>

text \<open>
  Lines 68-72. The Go map \<^verbatim>\<open>domainQueue\<close> is a list of (domain, addresses) with distinct
  domains; \<^verbatim>\<open>domainQueue[d] = append(domainQueue[d], address)\<close> appends to the entry of
  \<open>d\<close> or adds a new entry. The order of the entries is not the order in which Go ranges
  over the map: that order is a parameter of \<open>Verify\<close> below.
\<close>

fun append_address :: "Address \<Rightarrow> (string \<times> Address list) list \<Rightarrow> (string \<times> Address list) list" where
  "append_address a [] = [(addr_Domain a, [a])]"
| "append_address a ((k, as) # q) =
     (if k = addr_Domain a then (k, as @ [a]) # q else (k, as) # append_address a q)"

definition group_by_domain :: "Address list \<Rightarrow> (string \<times> Address list) list" where
  "group_by_domain addresses = foldl (\<lambda>q a. append_address a q) [] addresses"

text \<open>
  What the Go runtime decides: the order in which \<^verbatim>\<open>range domainQueue\<close> visits the map
  (\<open>range_order\<close>: each number picks one of the entries not yet visited), and which of
  the workers that can move makes the next move (\<open>turn\<close>, by step number).
\<close>

record schedule =
  range_order :: "nat list"
  turn :: "nat \<Rightarrow> nat"

fun pick_order :: "nat list \<Rightarrow> 'a list \<Rightarrow> 'a list" where
  "pick_order [] xs = xs"
| "pick_order (n # ns) xs =
     (if xs = [] then []
      else let i = n mod length xs in xs ! i # pick_order ns (take i xs @ drop (Suc i) xs))"

text \<open>
  A worker goroutine is between two jobs (\<open>Idle\<close>: at \<^verbatim>\<open>for j := range jobs\<close>) or inside
  the address loop of a job, with the batch variables, \<^verbatim>\<open>j[0].Domain\<close> and the addresses
  still to do.
\<close>

datatype 'd wstate = Idle | Busy "'d batch_vars" string "Address list"

text \<open>
  The two channels and the workers. \<open>jobs\<close> holds the batches not yet received (the
  channel is filled and closed by \<^verbatim>\<open>Verify\<close> without blocking: its capacity is the
  number of domains). \<open>results\<close> is everything sent on the results channel so far, in
  order; a send never blocks since the capacity is the number of addresses.
  \<open>panicked\<close>: a worker hit \<^verbatim>\<open>j[0]\<close> on an empty batch.
\<close>

record 'd pool =
  jobs :: "Address list list"
  workers :: "'d wstate list"
  results :: "Lookup list"
  calls :: "event list"
  panicked :: bool

text \<open>
  One move of worker \<open>i\<close>: receive the next job and run lines 115-138; or run the loop
  body for the next address and send its Lookup; or, the addresses done, close the
  session and go back to the range loop. An idle worker facing the empty, closed
  channel leaves the loop and never moves again.
\<close>

definition worker_step :: "'d collaborators \<Rightarrow> Verifier \<Rightarrow> nat \<Rightarrow> 'd pool \<Rightarrow> 'd pool" where
  "worker_step c v i p =
     (case workers p ! i of
        Idle \<Rightarrow>
          (case jobs p of
             [] \<Rightarrow> p
           | j # js \<Rightarrow>
               (case j of
                  [] \<Rightarrow> p\<lparr>jobs := js, panicked := True\<rparr>
                | a0 # _ \<Rightarrow>
                    (case open_domain c v (addr_Domain a0) of
                       (st, es) \<Rightarrow>
                         p\<lparr>jobs := js, workers := (workers p)[i := Busy st (addr_Domain a0) j],
                           calls := calls p @ es\<rparr>)))
      | Busy st dname [] \<Rightarrow>
          p\<lparr>workers := (workers p)[i := Idle], calls := calls p @ job_end st dname\<rparr>
      | Busy st dname (a # as) \<Rightarrow>
          (case address_step c st a of
             (st', l, es) \<Rightarrow>
               p\<lparr>workers := (workers p)[i := Busy st' dname as], results := results p @ [l],
                 calls := calls p @ es\<rparr>))"

definition can_move :: "'d pool \<Rightarrow> nat \<Rightarrow> bool" where
  "can_move p i = (case workers p ! i of Idle \<Rightarrow> jobs p \<noteq> [] | Busy st dname as \<Rightarrow> True)"

definition runnable :: "'d pool \<Rightarrow> nat list" where
  "runnable p = (if panicked p then [] else filter (can_move p) [0..<length (workers p)])"

text \<open>The moves still to be made: the measure under which the pool comes to rest.\<close>

fun moves_left :: "'d wstate \<Rightarrow> nat" where
  "moves_left Idle = 0"
| "moves_left (Busy st dname as) = Suc (length as)"

definition work :: "'d pool \<Rightarrow> nat" where
  "work p = (if panicked p then 0
             else sum_list (map (\<lambda>j. length j + 2) (jobs p)) + sum_list (map moves_left (workers p)))"

text \<open>
  The workers run until none can move: every worker has left its range loop, or the
  process has died in a panic. \<open>trn t\<close> picks the worker that makes move \<open>t\<close> among
  those that can.
\<close>

function run_pool :: "'d collaborators \<Rightarrow> Verifier \<Rightarrow> (nat \<Rightarrow> nat) \<Rightarrow> nat \<Rightarrow> 'd pool \<Rightarrow> 'd pool" where
  "run_pool c v trn t p =
     (case runnable p of
        [] \<Rightarrow> p
      | i # is \<Rightarrow> run_pool c v trn (Suc t) (worker_step c v ((i # is) ! (trn t mod length (i # is))) p))"
  by pat_completeness auto
termination
proof (relation "measure (\<lambda>(c, v, trn, t, p). work p)")
  show "wf (measure (\<lambda>(c, v, trn, t, p). work p))" by simp
next
  fix c :: "'d collaborators" and v and trn :: "nat \<Rightarrow> nat" and t :: nat and p :: "'d pool" and i "is"
  assume r: "runnable p = i # is"
  define k where "k = (i # is) ! (trn t mod length (i # is))"
  have "k \<in> set (runnable p)"
    unfolding r k_def by (rule nth_mem) simp
  then have k: "k < length (workers p)" and mv: "can_move p k" and np: "\<not> panicked p"
    by (auto simp: runnable_def split: if_splits)
  have "n < length ws \<Longrightarrow> sum_list (map moves_left (ws[n := y])) + moves_left (ws ! n)
      = sum_list (map moves_left ws) + moves_left y" for ws :: "'d wstate list" and n y
    by (induction ws arbitrary: n) (auto split: nat.splits)
  from this[OF k]
  have upd: "sum_list (map moves_left ((workers p)[k := y])) + moves_left (workers p ! k)
      = sum_list (map moves_left (workers p)) + moves_left y" for y .
  have "work (worker_step c v k p) < work p"
  proof (cases "workers p ! k")
    case Idle
    with mv obtain j js where js: "jobs p = j # js"
      by (auto simp: can_move_def neq_Nil_conv)
    show ?thesis
    proof (cases j)
      case Nil
      with Idle js np show ?thesis by (simp add: worker_step_def work_def)
    next
      case (Cons a0 rest)
      obtain st es where o: "open_domain c v (addr_Domain a0) = (st, es)"
        by (cases "open_domain c v (addr_Domain a0)")
      from upd[of "Busy st (addr_Domain a0) j"] Idle
      have "sum_list (map moves_left ((workers p)[k := Busy st (addr_Domain a0) j]))
          = sum_list (map moves_left (workers p)) + Suc (length j)"
        by simp
      with Idle js Cons o np show ?thesis by (simp add: worker_step_def work_def)
    qed
  next
    case (Busy st dname as)
    show ?thesis
    proof (cases as)
      case Nil
      from upd[of Idle] Busy Nil
      have "sum_list (map moves_left ((workers p)[k := Idle])) + 1 = sum_list (map moves_left (workers p))"
        by simp
      with Busy Nil np show ?thesis by (simp add: worker_step_def work_def)
    next
      case (Cons a rest)
      obtain st' l es where o: "address_step c st a = (st', l, es)"
        by (cases "address_step c st a")
      from upd[of "Busy st' dname rest"] Busy Cons
      have "sum_list (map moves_left ((workers p)[k := Busy st' dname rest])) + 1
          = sum_list (map moves_left (workers p))"
        by simp
      with Busy Cons o np show ?thesis by (simp add: worker_step_def work_def)
    qed
  qed
  then show "((c, v, trn, Suc t, worker_step c v ((i # is) ! (trn t mod length (i # is))) p), (c, v, trn, t, p))
      \<in> measure (\<lambda>(c, v, trn, t, p). work p)"
    by (simp add: k_def)
qed

declare run_pool.simps [simp del]

text \<open>
  What one call of \<^verbatim>\<open>Verify\<close> does: the slice it returns (\<open>None\<close>: it never returns,
  blocked on \<^verbatim>\<open><-results\<close> or dead in a worker's panic), the capacities of the two
  channels if it made them, the number of \<^verbatim>\<open>go v.worker(...)\<close> statements it ran, and
  the calls its workers made on the collaborators until the last of them left its
  loop (a worker sends its last Lookup before it closes the session, so the last
  \<^verbatim>\<open>Close\<close> may come after \<^verbatim>\<open>Verify\<close> has returned).
\<close>

record verify_run =
  returned :: "Lookup list option"
  channels :: "(nat \<times> nat) option"
  started :: nat
  collaborator_calls :: "event list"

text \<open>
  Lines 63-107. \<open>nworkers\<close> is the variable \<^verbatim>\<open>workers\<close>; the loop of line 92 runs
  \<open>nat nworkers\<close> times (not at all when \<^verbatim>\<open>workers\<close> is zero or negative). The loop of
  line 103 receives \<^verbatim>\<open>len(addresses)\<close> Lookups, in the order they were sent, and blocks
  for ever if fewer are sent.
\<close>

definition Verify :: "'d collaborators \<Rightarrow> Verifier \<Rightarrow> schedule \<Rightarrow> Address list \<Rightarrow> verify_run" where
  "Verify c v sch addresses =
     (let totalLookups = length addresses;
          domainQueue = group_by_domain addresses
      in if length domainQueue = 0
         then \<lparr>returned = Some [], channels = None, started = 0, collaborator_calls = []\<rparr>
         else
           let nworkers = (if int (length domainQueue) < maxWorkerCount v
                           then int (length domainQueue) else maxWorkerCount v);
               p = run_pool c v (turn sch) 0
                     \<lparr>jobs = map snd (pick_order (range_order sch) domainQueue),
                      workers = replicate (nat nworkers) Idle,
                      results = [], calls = [], panicked = False\<rparr>
           in \<lparr>returned = (if panicked p then None
                           else if length (results p) < length addresses then None
                           else Some (take (length addresses) (results p))),
               channels = Some (length domainQueue, totalLookups),
               started = nat nworkers,
               collaborator_calls = calls p\<rparr>)"

section \<open>What is stated about a run\<close>

text \<open>
  An input address and the Lookup made for it carry the same three strings; "one
  Lookup per input address" compares the lists of these triples as multisets.
\<close>

definition address_id :: "Address \<Rightarrow> string \<times> string \<times> string" where
  "address_id a = (addr_Address a, addr_Username a, addr_Domain a)"

definition lookup_id :: "Lookup \<Rightarrow> string \<times> string \<times> string" where
  "lookup_id l = (Address l, Username l, Domain' l)"

text \<open>
  The bookkeeping of the pool: the addresses whose Lookup is sent (\<open>results\<close>), is
  still to be made by a busy worker, or waits in a job not yet received.
\<close>

fun owes :: "'d wstate \<Rightarrow> (string \<times> string \<times> string) multiset" where
  "owes Idle = {#}"
| "owes (Busy st dname as) = mset (map address_id as)"

definition owed :: "'d pool \<Rightarrow> (string \<times> string \<times> string) multiset" where
  "owed p = mset (map lookup_id (results p))
     + sum_list (map owes (workers p))
     + mset (map address_id (concat (jobs p)))"


section \<open>Concrete collaborators and inputs\<close>

text \<open>
  A scripted mail world used to run the model: the domain \<^verbatim>\<open>missing.invalid\<close> has no
  host, \<^verbatim>\<open>catchall.example\<close> accepts every mailbox, and three mailboxes of
  \<^verbatim>\<open>good.example\<close> make the probe fail (mailbox full; a stale "no such host"; a
  generic refusal). The session state counts the probes made on it. The classifiers are
  the spec's, with "no such host" summarised as the sentinel \<^verbatim>\<open>ErrNoSuchHost\<close>.
\<close>

definition mock_summary :: "string \<Rightarrow> error" where
  "mock_summary s = (if s = ''no such host'' then ErrNoSuchHost else ErrOther ''mail server error'')"

definition mock :: "nat collaborators" where
  "mock = \<lparr>
     NewDeliverabler = (\<lambda>dname host src tmo.
        if dname = ''missing.invalid'' then (None, Some (ErrOther ''no such host'')) else (Some 0, None)),
     HasCatchAll = (\<lambda>s dname n. (dname = ''catchall.example'', s)),
     IsDeliverable = (\<lambda>s a n.
        (if a = ''full@good.example'' then Some ErrFullInbox
         else if a = ''gone@good.example'' then Some (ErrOther ''no such host'')
         else if a = ''blocked@good.example'' then Some (ErrOther ''550 blocked'')
         else None, Suc s)),
     IsDisposable = (\<lambda>dname. False),
     HasGravatar = (\<lambda>a. False),
     parseSTDErr = parseRCPTErr_spec mock_summary,
     parseRCPTErr = parseRCPTErr_spec mock_summary,
     Error_text = (\<lambda>e. case e of ErrNoSuchHost \<Rightarrow> ''no such host''
                              | ErrFullInbox \<Rightarrow> ''full inbox'' | ErrOther s \<Rightarrow> s)\<rparr>"

definition mock_verifier :: Verifier where
  "mock_verifier = \<lparr>maxWorkerCount = 2, hostname = ''mx.local'', sourceAddr = ''probe@mx.local'',
     client_Timeout = 5\<rparr>"

definition mk :: "string \<Rightarrow> string \<Rightarrow> Address" where
  "mk u d = \<lparr>addr_Address = u @ ''@'' @ d, addr_Username = u, addr_Domain = d\<rparr>"

text \<open>The schedule in which the map is ranged in insertion order and the first worker
  that can move always moves.\<close>

definition fifo :: schedule where
  "fifo = \<lparr>range_order = [], turn = (\<lambda>t. 0)\<rparr>"

section \<open>The loop body and the address loop\<close>

lemma probe_frame:
  "probe c st a = (r, st', es) \<Longrightarrow>
     catchAll st' = catchAll st \<and> disposable st' = disposable st \<and>
     (deliverabler st' = None \<longleftrightarrow> deliverabler st = None)"
  by (auto simp: probe_def split: if_splits option.splits prod.splits)

lemma probe_flags:
  "probe c st a = ((dl, fu), st', es) \<Longrightarrow> (catchAll st \<longrightarrow> dl) \<and> \<not> (dl \<and> fu)"
  by (auto simp: probe_def split: if_splits option.splits prod.splits)

lemma address_step_flags:
  "address_step c st a = (st', l, es) \<Longrightarrow>
     (CatchAll l \<longrightarrow> Deliverable l) \<and> \<not> (Deliverable l \<and> FullInbox l)"
proof -
  assume s: "address_step c st a = (st', l, es)"
  obtain dl fu st1 es1 where p: "probe c st a = ((dl, fu), st1, es1)"
    by (metis prod.exhaust)
  from probe_flags[OF p] probe_frame[OF p] s p show ?thesis
    by (auto simp: address_step_def)
qed

lemma address_step_frame:
  "address_step c st a = (st', l, es) \<Longrightarrow>
     catchAll st' = catchAll st \<and> disposable st' = disposable st \<and>
     (deliverabler st' = None \<longleftrightarrow> deliverabler st = None)"
  by (auto simp: address_step_def split: prod.splits dest: probe_frame)

lemma probe_events:
  "probe c st a = (r, st', es) \<Longrightarrow>
     set es \<subseteq> {IsDeliverableCall (addr_Address a)} \<and> (catchAll st \<longrightarrow> es = [])"
  by (auto simp: probe_def split: if_splits option.splits prod.splits)

lemma address_step_events:
  assumes "address_step c st a = (st', l, es)"
  shows "set es \<subseteq> {IsDeliverableCall (addr_Address a), HasGravatarCall (addr_Address a)}"
    and "HasGravatarCall (addr_Address a) \<in> set es"
    and "catchAll st \<Longrightarrow> es = [HasGravatarCall (addr_Address a)]"
proof -
  obtain r st1 es1 where p: "probe c st a = (r, st1, es1)" by (metis prod.exhaust)
  obtain dl fu where r: "r = (dl, fu)" by (cases r)
  from assms p r have es: "es = es1 @ [HasGravatarCall (addr_Address a)]"
    by (simp add: address_step_def)
  from probe_events[OF p] es
  show "set es \<subseteq> {IsDeliverableCall (addr_Address a), HasGravatarCall (addr_Address a)}"
    and "HasGravatarCall (addr_Address a) \<in> set es"
    and "catchAll st \<Longrightarrow> es = [HasGravatarCall (addr_Address a)]"
    by auto
qed

lemma addresses_loop_length:
  "addresses_loop c st as = (st', ls, es) \<Longrightarrow> length ls = length as"
  by (induction as arbitrary: st st' ls es) (auto split: prod.splits)

lemma addresses_loop_frame:
  "addresses_loop c st as = (st', ls, es) \<Longrightarrow>
     catchAll st' = catchAll st \<and> disposable st' = disposable st \<and>
     (deliverabler st' = None \<longleftrightarrow> deliverabler st = None)"
proof (induction as arbitrary: st st' ls es)
  case Nil
  then show ?case by simp
next
  case (Cons a as)
  obtain st1 l1 es1 where s: "address_step c st a = (st1, l1, es1)" by (metis prod.exhaust)
  obtain st2 ls2 es2 where r: "addresses_loop c st1 as = (st2, ls2, es2)" by (metis prod.exhaust)
  from Cons.prems s r have "st' = st2" by simp
  with Cons.IH[OF r] address_step_frame[OF s] show ?case by simp
qed

lemma addresses_loop_events:
  "addresses_loop c st as = (st', ls, es) \<Longrightarrow>
     (\<forall>d. CloseCall d \<notin> set es) \<and> list_all (\<lambda>a. HasGravatarCall (addr_Address a) \<in> set es) as"
proof (induction as arbitrary: st st' ls es)
  case Nil
  then show ?case by simp
next
  case (Cons a as)
  obtain st1 l1 es1 where s: "address_step c st a = (st1, l1, es1)" by (metis prod.exhaust)
  obtain st2 ls2 es2 where r: "addresses_loop c st1 as = (st2, ls2, es2)" by (metis prod.exhaust)
  from Cons.prems s r have es: "es = es1 @ es2" by simp
  from address_step_events(1,2)[OF s] Cons.IH[OF r] es show ?case
    by (auto simp: list_all_iff)
qed

lemma addresses_loop_catchAll:
  "addresses_loop c st as = (st', ls, es) \<Longrightarrow> catchAll st \<Longrightarrow>
     list_all (\<lambda>l. Deliverable l \<and> CatchAll l) ls \<and> (\<forall>x. IsDeliverableCall x \<notin> set es)"
proof (induction as arbitrary: st st' ls es)
  case Nil
  then show ?case by simp
next
  case (Cons a as)
  obtain st1 l1 es1 where s: "address_step c st a = (st1, l1, es1)" by (metis prod.exhaust)
  obtain st2 ls2 es2 where r: "addresses_loop c st1 as = (st2, ls2, es2)" by (metis prod.exhaust)
  from Cons.prems s r have es: "es = es1 @ es2" "ls = l1 # ls2" by simp_all
  from address_step_frame[OF s] Cons.prems(2) have c1: "catchAll st1" by simp
  obtain dl fu st3 es3 where p: "probe c st a = ((dl, fu), st3, es3)" by (metis prod.exhaust)
  from s p have l1: "Deliverable l1 = dl" "CatchAll l1 = catchAll st3" by (auto simp: address_step_def)
  from probe_flags[OF p] probe_frame[OF p] Cons.prems(2) l1 have "Deliverable l1 \<and> CatchAll l1" by simp
  with Cons.IH[OF r c1] address_step_events(3)[OF s Cons.prems(2)] es show ?case by simp
qed

lemma open_domain_events:
  "open_domain c v dname = (st, es) \<Longrightarrow>
     (\<forall>d. CloseCall d \<notin> set es) \<and> (\<forall>x. IsDeliverableCall x \<notin> set es) \<and>
     (deliverabler st = None \<longleftrightarrow> fst (NewDeliverabler c dname (hostname v) (sourceAddr v) (client_Timeout v)) = None)"
  by (auto simp: open_domain_def Let_def split: prod.splits option.splits if_splits)


section \<open>The pool of workers\<close>

lemma run_pool_rest: "runnable (run_pool c v trn t p) = []"
proof (induction c v trn t p rule: run_pool.induct)
  case (1 c v trn t p)
  show ?case
  proof (cases "runnable p")
    case Nil
    then show ?thesis by (subst run_pool.simps) simp
  next
    case (Cons i "is")
    with 1 show ?thesis by (subst run_pool.simps) simp
  qed
qed

lemma runnable_mem: "i \<in> set (runnable p) \<Longrightarrow> i < length (workers p) \<and> can_move p i \<and> \<not> panicked p"
  by (auto simp: runnable_def split: if_splits)

lemma run_pool_inv_aux:
  "(\<forall>q k. I q \<longrightarrow> k < length (workers q) \<longrightarrow> can_move q k \<longrightarrow> \<not> panicked q \<longrightarrow> I (worker_step c v k q))
     \<Longrightarrow> I p \<Longrightarrow> I (run_pool c v trn t p)"
proof (induction c v trn t p rule: run_pool.induct)
  case (1 c v trn t p)
  note step = 1(2) and Ip = 1(3)
  show ?case
  proof (cases "runnable p")
    case Nil
    with Ip show ?thesis by (subst run_pool.simps) simp
  next
    case (Cons i "is")
    define k where "k = (i # is) ! (trn t mod length (i # is))"
    have "k \<in> set (runnable p)" unfolding Cons k_def by (rule nth_mem) simp
    from runnable_mem[OF this] have "k < length (workers p)" "can_move p k" "\<not> panicked p"
      by simp_all
    with step Ip have "I (worker_step c v k p)" by simp
    then have "I (run_pool c v trn (Suc t) (worker_step c v k p))"
      unfolding k_def by (rule 1(1)[OF Cons step])
    then show ?thesis
      by (subst run_pool.simps) (simp add: Cons k_def)
  qed
qed

lemma run_pool_inv:
  assumes "I p"
    and "\<And>q k. I q \<Longrightarrow> k < length (workers q) \<Longrightarrow> can_move q k \<Longrightarrow> \<not> panicked q \<Longrightarrow> I (worker_step c v k q)"
  shows "I (run_pool c v trn t p)"
proof (rule run_pool_inv_aux)
  show "\<forall>q k. I q \<longrightarrow> k < length (workers q) \<longrightarrow> can_move q k \<longrightarrow> \<not> panicked q \<longrightarrow> I (worker_step c v k q)"
    using assms(2) by simp
  show "I p" by (rule assms(1))
qed

lemma sum_list_map_upd:
  "k < length ws \<Longrightarrow> sum_list (map f (ws[k := y])) + f (ws ! k) = sum_list (map f ws) + (f y :: 'a :: comm_monoid_add)"
  by (induction ws arbitrary: k) (auto split: nat.splits simp: add_ac)

lemma address_step_id:
  "address_step c st a = (st', l, es) \<Longrightarrow> lookup_id l = address_id a"
  by (auto simp: address_step_def lookup_id_def address_id_def split: prod.splits)

lemma worker_step_owed:
  assumes k: "k < length (workers p)" and mv: "can_move p k" and np: "\<not> panicked p"
    and ne: "list_all (\<lambda>j. j \<noteq> []) (jobs p)"
  shows "owed (worker_step c v k p) = owed p \<and> \<not> panicked (worker_step c v k p)
     \<and> list_all (\<lambda>j. j \<noteq> []) (jobs (worker_step c v k p))
     \<and> length (workers (worker_step c v k p)) = length (workers p)"
proof (cases "workers p ! k")
  case Idle
  with mv obtain j js where js: "jobs p = j # js"
    by (auto simp: can_move_def neq_Nil_conv)
  with ne obtain a0 rest where j: "j = a0 # rest" by (cases j) auto
  obtain st es where o: "open_domain c v (addr_Domain a0) = (st, es)"
    by (cases "open_domain c v (addr_Domain a0)")
  from sum_list_map_upd[OF k, of owes "Busy st (addr_Domain a0) j"] Idle
  have "sum_list (map owes ((workers p)[k := Busy st (addr_Domain a0) j]))
      = sum_list (map owes (workers p)) + mset (map address_id j)"
    by simp
  with Idle js j o np ne show ?thesis by (simp add: worker_step_def owed_def)
next
  case (Busy st dname as)
  show ?thesis
  proof (cases as)
    case Nil
    from sum_list_map_upd[OF k, of owes Idle] Busy Nil
    have "sum_list (map owes ((workers p)[k := Idle]))
      = sum_list (map owes (workers p))"
      by simp
    with Busy Nil np ne show ?thesis by (simp add: worker_step_def owed_def)
  next
    case (Cons a rest)
    obtain st' l es where o: "address_step c st a = (st', l, es)"
      by (cases "address_step c st a")
    from sum_list_map_upd[OF k, of owes "Busy st' dname rest"] Busy Cons
    have "sum_list (map owes ((workers p)[k := Busy st' dname rest])) + {#address_id a#}
      = sum_list (map owes (workers p))"
      by simp
    with Busy Cons o np ne address_step_id[OF o] show ?thesis
      by (simp add: worker_step_def owed_def)
  qed
qed


lemma append_address_mset:
  "mset (concat (map snd (append_address a q))) = mset (concat (map snd q)) + {#a#}"
  by (induction a q rule: append_address.induct) auto

lemma append_address_nonempty:
  "list_all (\<lambda>e. snd e \<noteq> []) q \<Longrightarrow> list_all (\<lambda>e. snd e \<noteq> []) (append_address a q)"
  by (induction a q rule: append_address.induct) auto

lemma append_address_keys:
  "map fst (append_address a q) =
     (if addr_Domain a \<in> set (map fst q) then map fst q else map fst q @ [addr_Domain a])"
  by (induction a q rule: append_address.induct) auto

lemma append_address_key_set:
  "fst ` set (append_address a q) = insert (addr_Domain a) (fst ` set q)"
  by (induction a q rule: append_address.induct) auto

lemma foldl_append_address:
  "mset (concat (map snd (foldl (\<lambda>q a. append_address a q) q0 as))) = mset (concat (map snd q0)) + mset as"
  "list_all (\<lambda>e. snd e \<noteq> []) q0 \<Longrightarrow> list_all (\<lambda>e. snd e \<noteq> []) (foldl (\<lambda>q a. append_address a q) q0 as)"
  "distinct (map fst q0) \<Longrightarrow> distinct (map fst (foldl (\<lambda>q a. append_address a q) q0 as))"
  "fst ` set (foldl (\<lambda>q a. append_address a q) q0 as) = fst ` set q0 \<union> addr_Domain ` set as"
proof (induction as arbitrary: q0)
  case Nil
  { case 1 show ?case by simp }
  { case 2 then show ?case by simp }
  { case 3 then show ?case by simp }
  { case 4 show ?case by simp }
next
  case (Cons a as)
  { case 1 show ?case by (simp add: Cons.IH(1) append_address_mset) }
  { case 2 then show ?case by (simp add: Cons.IH(2) append_address_nonempty) }
  { case 3 then show ?case by (simp add: Cons.IH(3) append_address_keys) }
  { case 4 show ?case by (simp add: Cons.IH(4) append_address_key_set) }
qed

lemma group_by_domain_mset: "mset (concat (map snd (group_by_domain as))) = mset as"
  by (simp add: group_by_domain_def foldl_append_address(1))

lemma group_by_domain_nonempty: "list_all (\<lambda>e. snd e \<noteq> []) (group_by_domain as)"
  by (simp add: group_by_domain_def foldl_append_address(2))

lemma group_by_domain_count: "length (group_by_domain as) = card (addr_Domain ` set as)"
proof -
  have d: "distinct (map fst (group_by_domain as))"
    by (simp add: group_by_domain_def foldl_append_address(3))
  have s: "fst ` set (group_by_domain as) = addr_Domain ` set as"
    by (simp add: group_by_domain_def foldl_append_address(4))
  from distinct_card[OF d] s show ?thesis by simp
qed

lemma pick_order_mset: "mset (pick_order ns xs) = mset xs"
proof (induction ns arbitrary: xs)
  case Nil
  then show ?case by simp
next
  case (Cons n ns)
  show ?case
  proof (cases "xs = []")
    case True
    then show ?thesis by simp
  next
    case False
    define i where "i = n mod length xs"
    from False have i: "i < length xs" by (simp add: i_def)
    have "mset xs = mset (take i xs @ xs ! i # drop (Suc i) xs)"
      using id_take_nth_drop[OF i] by simp
    with False Cons.IH[of "take i xs @ drop (Suc i) xs"] show ?thesis
      by (simp add: i_def Let_def)
  qed
qed


lemma mset_concat_cong:
  assumes "mset xs = mset ys"
  shows "mset (concat xs) = mset (concat ys)"
proof -
  have "mset (concat zs) = sum_mset (image_mset mset (mset zs))" for zs :: "'a list list"
    by (induction zs) auto
  with assms show ?thesis by simp
qed

lemma idle_owe_nothing:
  "\<forall>k < length ws. ws ! k = Idle \<Longrightarrow> sum_list (map owes ws) = {#}"
proof (induction ws)
  case Nil
  then show ?case by simp
next
  case (Cons w ws)
  from Cons.prems have "w = Idle" by (metis length_Cons nth_Cons_0 zero_less_Suc)
  moreover from Cons.prems have "\<forall>k < length ws. ws ! k = Idle" by (metis Suc_less_eq length_Cons nth_Cons_Suc)
  ultimately show ?case using Cons.IH by simp
qed

lemma at_rest:
  assumes r: "runnable p = []" and np: "\<not> panicked p" and w: "0 < length (workers p)"
  shows "jobs p = [] \<and> (\<forall>k < length (workers p). workers p ! k = Idle)"
proof -
  from r np have none: "\<forall>k < length (workers p). \<not> can_move p k"
    by (auto simp: runnable_def filter_empty_conv)
  have idle: "\<forall>k < length (workers p). workers p ! k = Idle"
  proof (intro allI impI)
    fix k assume "k < length (workers p)"
    with none have "\<not> can_move p k" by simp
    then show "workers p ! k = Idle" by (cases "workers p ! k") (simp_all add: can_move_def)
  qed
  from none w have "\<not> can_move p 0" by simp
  with idle w have "jobs p = []" by (auto simp: can_move_def split: wstate.splits)
  with idle show ?thesis by simp
qed

lemma worker_step_results:
  assumes step: "\<And>st a st' l es. address_step c st a = (st', l, es) \<Longrightarrow> P l"
    and "list_all P (results q)"
  shows "list_all P (results (worker_step c v k q))"
proof (cases "workers q ! k")
  case Idle
  with assms(2) show ?thesis
    by (auto simp: worker_step_def split: list.splits prod.splits)
next
  case (Busy st dname as)
  show ?thesis
  proof (cases as)
    case Nil
    with Busy assms(2) show ?thesis by (simp add: worker_step_def)
  next
    case (Cons a rest)
    obtain st' l es where o: "address_step c st a = (st', l, es)" by (metis prod.exhaust)
    from step[OF o] Busy Cons o assms(2) show ?thesis by (simp add: worker_step_def)
  qed
qed

lemma Verify_results_from_steps:
  assumes step: "\<And>st a st' l es. address_step c st a = (st', l, es) \<Longrightarrow> P l"
    and ret: "returned (Verify c v sch addresses) = Some ls"
  shows "list_all P ls"
proof (cases "group_by_domain addresses = []")
  case True
  with ret show ?thesis by (simp add: Verify_def)
next
  case False
  define dq where "dq = group_by_domain addresses"
  define n where "n = (if int (length dq) < maxWorkerCount v then int (length dq) else maxWorkerCount v)"
  define p0 :: "'a pool" where "p0 = \<lparr>jobs = map snd (pick_order (range_order sch) dq),
     workers = replicate (nat n) Idle, results = [], calls = [], panicked = False\<rparr>"
  define p where "p = run_pool c v (turn sch) 0 p0"
  have "list_all P (results p)" unfolding p_def
  proof (rule run_pool_inv)
    show "list_all P (results p0)" by (simp add: p0_def)
  next
    fix q :: "'a pool" and k :: nat assume "list_all P (results q)"
    then show "list_all P (results (worker_step c v k q))"
      using step by (rule worker_step_results[rotated])
  qed
  moreover have "returned (Verify c v sch addresses) =
      (if panicked p then None
       else if length (results p) < length addresses then None
       else Some (take (length addresses) (results p)))"
    unfolding p_def p0_def n_def dq_def using False by (simp add: Verify_def Let_def)
  with ret have "ls = take (length addresses) (results p)" by (simp split: if_splits)
  ultimately show ?thesis by (auto simp: list_all_iff dest: in_set_takeD)
qed


section \<open>The worker's loop and the pool agree\<close>

text \<open>
  \<open>worker_job\<close> runs one job in one piece; the pool runs it move by move. With one
  worker and one job the pool sends the Lookups of \<open>worker_job\<close> and makes its calls,
  so on an input of one domain \<^verbatim>\<open>Verify\<close> returns what \<open>worker_job\<close> computes.
\<close>

lemma runnable_single_busy:
  "runnable \<lparr>jobs = js, workers = [Busy st d as], results = rs, calls = cs, panicked = False\<rparr> = [0]"
  by (simp add: runnable_def can_move_def)

lemma run_pool_single_busy:
  "addresses_loop c st as = (st', ls, es) \<Longrightarrow>
   run_pool c v trn t \<lparr>jobs = js, workers = [Busy st d as], results = rs, calls = cs, panicked = False\<rparr>
     = run_pool c v trn (Suc (t + length as))
         \<lparr>jobs = js, workers = [Idle], results = rs @ ls, calls = cs @ es @ job_end st' d, panicked = False\<rparr>"
proof (induction as arbitrary: st st' t rs cs ls es)
  case Nil
  then show ?case
    by (subst run_pool.simps) (simp add: runnable_single_busy worker_step_def)
next
  case (Cons a as)
  obtain st1 l es1 where s: "address_step c st a = (st1, l, es1)" by (metis prod.exhaust)
  obtain st2 ls2 es2 where r: "addresses_loop c st1 as = (st2, ls2, es2)" by (metis prod.exhaust)
  from Cons.prems s r have e: "st' = st2" "ls = l # ls2" "es = es1 @ es2" by simp_all
  have "run_pool c v trn t \<lparr>jobs = js, workers = [Busy st d (a # as)], results = rs, calls = cs, panicked = False\<rparr>
      = run_pool c v trn (Suc t) \<lparr>jobs = js, workers = [Busy st1 d as], results = rs @ [l], calls = cs @ es1, panicked = False\<rparr>"
    by (subst run_pool.simps) (simp add: runnable_single_busy worker_step_def s)
  also have "\<dots> = run_pool c v trn (Suc (Suc t + length as))
         \<lparr>jobs = js, workers = [Idle], results = (rs @ [l]) @ ls2, calls = (cs @ es1) @ es2 @ job_end st2 d, panicked = False\<rparr>"
    by (rule Cons.IH[OF r])
  finally show ?case by (simp add: e)
qed

lemma run_pool_single_job:
  assumes "worker_job c v j = Some (ls, es)"
  shows "run_pool c v trn t \<lparr>jobs = [j], workers = [Idle], results = [], calls = [], panicked = False\<rparr>
     = \<lparr>jobs = [], workers = [Idle], results = ls, calls = es, panicked = False\<rparr>"
proof -
  from assms obtain a0 rest where j: "j = a0 # rest" by (cases j) (auto simp: worker_job_def)
  obtain st es0 where o: "open_domain c v (addr_Domain a0) = (st, es0)" by (metis prod.exhaust)
  obtain st' ls1 es1 where r: "addresses_loop c st j = (st', ls1, es1)" by (metis prod.exhaust)
  from assms j o r have out: "ls = ls1" "es = es0 @ es1 @ job_end st' (addr_Domain a0)"
    by (simp_all add: worker_job_def)
  have "run_pool c v trn t \<lparr>jobs = [j], workers = [Idle], results = [], calls = [], panicked = False\<rparr>
      = run_pool c v trn (Suc t) \<lparr>jobs = [], workers = [Busy st (addr_Domain a0) j], results = [], calls = es0, panicked = False\<rparr>"
    by (subst run_pool.simps) (simp add: runnable_def can_move_def worker_step_def j o)
  also have "\<dots> = run_pool c v trn (Suc (Suc t + length j))
      \<lparr>jobs = [], workers = [Idle], results = [] @ ls1, calls = es0 @ es1 @ job_end st' (addr_Domain a0), panicked = False\<rparr>"
    by (rule run_pool_single_busy[OF r])
  also have "\<dots> = \<lparr>jobs = [], workers = [Idle], results = ls1, calls = es0 @ es1 @ job_end st' (addr_Domain a0), panicked = False\<rparr>"
    by (subst run_pool.simps) (simp add: runnable_def can_move_def)
  finally show ?thesis by (simp add: out)
qed

lemma group_one_domain_aux:
  "list_all (\<lambda>a. addr_Domain a = d) as \<Longrightarrow>
     foldl (\<lambda>q a. append_address a q) [(d, xs)] as = [(d, xs @ as)]"
  by (induction as arbitrary: xs) auto

lemma group_one_domain:
  "list_all (\<lambda>a. addr_Domain a = addr_Domain a0) as \<Longrightarrow>
     group_by_domain (a0 # as) = [(addr_Domain a0, a0 # as)]"
  using group_one_domain_aux[of "addr_Domain a0" as "[a0]"] by (simp add: group_by_domain_def)

lemma pick_order_Nil: "pick_order ns [] = []"
  by (cases ns) simp_all

lemma pick_order_single: "pick_order ns [x] = [x]"
  by (cases ns) (simp_all add: pick_order_Nil)

lemma Verify_one_domain:
  assumes "list_all (\<lambda>a. addr_Domain a = addr_Domain a0) as" and "1 \<le> maxWorkerCount v"
    and "worker_job c v (a0 # as) = Some (ls, es)"
  shows "Verify c v sch (a0 # as) =
     \<lparr>returned = Some ls, channels = Some (1, length (a0 # as)), started = 1, collaborator_calls = es\<rparr>"
proof -
  from assms(3) have "length ls = length (a0 # as)"
    by (auto simp: worker_job_def split: prod.splits dest: addresses_loop_length)
  with assms(2) show ?thesis
    by (simp add: Verify_def Let_def group_one_domain[OF assms(1)] pick_order_single
        run_pool_single_job[OF assms(3)])
qed

section \<open>The batch variables from one address to the next\<close>

text \<open>
  \<^verbatim>\<open>hostExists\<close>, \<^verbatim>\<open>basicErr\<close> and \<^verbatim>\<open>detailErr\<close> are declared once per batch (lines
  115-117) and written by the probe of an address (lines 155-160). A batch without a
  session never probes, so its Lookups all carry what line 121-129 decided; a probe that
  fails overwrites the three variables; a probe that succeeds leaves them as the last
  failing probe of the batch set them.
\<close>

lemma addresses_loop_append:
  "addresses_loop c st (xs @ ys) =
     (case addresses_loop c st xs of
        (st1, ls1, es1) \<Rightarrow>
          (case addresses_loop c st1 ys of
             (st2, ls2, es2) \<Rightarrow> (st2, ls1 @ ls2, es1 @ es2)))"
  by (induction xs arbitrary: st) (auto split: prod.splits)

lemma address_step_full_inbox:
  assumes cls: "parseRCPTErr c = parseRCPTErr_spec summary"
    and nc: "\<not> catchAll st" and d: "deliverabler st = Some s"
    and pr: "fst (IsDeliverable c s (addr_Address a) 3) = Some ErrFullInbox"
    and step: "address_step c st a = (st', l, es)"
  shows "Address l = addr_Address a \<and> FullInbox l \<and> \<not> Deliverable l \<and> Error l = [] \<and> ErrorDetails l = []"
proof -
  obtain s' where i: "IsDeliverable c s (addr_Address a) 3 = (Some ErrFullInbox, s')"
    using pr by (cases "IsDeliverable c s (addr_Address a) 3") simp
  from nc d i cls have "probe c st a = ((False, True), st\<lparr>deliverabler := Some s', basicErr := None, detailErr := None\<rparr>,
      [IsDeliverableCall (addr_Address a)])"
    by (simp add: probe_def)
  with step show ?thesis by (auto simp: address_step_def errStr_def)
qed

lemma probe_without_session:
  "\<not> catchAll st \<Longrightarrow> deliverabler st = None \<Longrightarrow> probe c st a = ((False, False), st, [])"
  by (simp add: probe_def)

lemma addresses_loop_without_session:
  assumes "\<not> catchAll st" and "deliverabler st = None"
    and "addresses_loop c st as = (st', ls, es)"
  shows "st' = st \<and> list_all (\<lambda>l. HostExists l = hostExists st \<and> \<not> Deliverable l \<and> \<not> FullInbox l
           \<and> \<not> CatchAll l \<and> Error l = errStr c (basicErr st) \<and> ErrorDetails l = errStr c (detailErr st)) ls"
  using assms(3)
proof (induction as arbitrary: st' ls es)
  case Nil
  then show ?case by simp
next
  case (Cons a as)
  from assms(1,2) have s: "address_step c st a =
      (st, \<lparr>Address = addr_Address a, Username = addr_Username a, Domain' = addr_Domain a,
            HostExists = hostExists st, Deliverable = False, FullInbox = False,
            CatchAll = catchAll st, Disposable = disposable st, Gravatar = HasGravatar c a,
            Error = errStr c (basicErr st), ErrorDetails = errStr c (detailErr st)\<rparr>,
       [HasGravatarCall (addr_Address a)])"
    by (simp add: address_step_def probe_without_session)
  obtain ls2 es2 st2 where r: "addresses_loop c st as = (st2, ls2, es2)" by (metis prod.exhaust)
  from Cons.IH[OF r] Cons.prems s r assms(1) show ?case by auto
qed

lemma host_absent_at_open:
  assumes o: "NewDeliverabler c (addr_Domain a0) (hostname v) (sourceAddr v) (client_Timeout v) = (None, Some e)"
    and cl: "fst (parseSTDErr c e) = Some ErrNoSuchHost"
    and w: "worker_job c v (a0 # as) = Some (ls, es)"
  shows "list_all (\<lambda>l. \<not> HostExists l \<and> \<not> Deliverable l \<and> \<not> FullInbox l \<and> \<not> CatchAll l
           \<and> Error l = [] \<and> ErrorDetails l = []) ls"
proof -
  let ?st = "\<lparr>deliverabler = None, disposable = IsDisposable c (addr_Domain a0), catchAll = False,
     hostExists = False, basicErr = None, detailErr = None\<rparr> :: 'a batch_vars"
  from o cl have od: "fst (open_domain c v (addr_Domain a0)) = ?st"
    by (cases "parseSTDErr c e") (simp add: open_domain_def)
  obtain st' es1 where r: "addresses_loop c ?st (a0 # as) = (st', ls, es1)"
    using w od by (auto simp: worker_job_def split: prod.splits)
  from addresses_loop_without_session[OF _ _ r] show ?thesis
    by (simp add: errStr_def list_all_iff)
qed

lemma host_absent_at_probe:
  assumes "\<not> catchAll st" and "deliverabler st = Some s"
    and "IsDeliverable c s (addr_Address a) 3 = (Some err, s')"
    and "fst (parseRCPTErr c err) = Some ErrNoSuchHost"
    and "address_step c st a = (st', l, es)"
  shows "\<not> HostExists l \<and> \<not> Deliverable l \<and> \<not> CatchAll l \<and> Error l = [] \<and> ErrorDetails l = []
     \<and> (FullInbox l \<longleftrightarrow> err = ErrFullInbox) \<and> \<not> hostExists st'"
  using assms by (cases "parseRCPTErr c err") (auto simp: address_step_def probe_def errStr_def)

lemma generic_error_attached:
  assumes "\<not> catchAll st" and "deliverabler st = Some s"
    and "IsDeliverable c s (addr_Address a) 3 = (Some err, s')"
    and "parseRCPTErr c err = (b, d)" and "b \<noteq> Some ErrNoSuchHost"
    and "address_step c st a = (st', l, es)"
  shows "Error l = errStr c b \<and> ErrorDetails l = errStr c d \<and> \<not> Deliverable l
     \<and> basicErr st' = b \<and> detailErr st' = d"
  using assms by (auto simp: address_step_def probe_def)

lemma success_keeps_batch_variables:
  assumes "\<not> catchAll st" and "deliverabler st = Some s"
    and "IsDeliverable c s (addr_Address a) 3 = (None, s')"
    and "address_step c st a = (st', l, es)"
  shows "Deliverable l \<and> HostExists l = hostExists st \<and> Error l = errStr c (basicErr st)
     \<and> ErrorDetails l = errStr c (detailErr st)"
  using assms by (auto simp: address_step_def probe_def)

text \<open>
  What the loop body's two flags say about the probe: \<^verbatim>\<open>fullInbox\<close> is true only if the
  probe was made (no catch-all, a session) and answered \<^verbatim>\<open>ErrFullInbox\<close>;
  \<^verbatim>\<open>deliverable\<close> is true only if the batch is catch-all (probe skipped) or the probe was
  made and answered nil.
\<close>

lemma address_step_only_when:
  assumes "address_step c st a = (st', l, es)"
  shows "\<not> (Deliverable l \<and> FullInbox l)
     \<and> (FullInbox l \<longrightarrow> \<not> catchAll st
           \<and> (\<exists>s. deliverabler st = Some s \<and> fst (IsDeliverable c s (addr_Address a) 3) = Some ErrFullInbox))
     \<and> (Deliverable l \<longrightarrow> catchAll st
           \<or> (\<exists>s. deliverabler st = Some s \<and> fst (IsDeliverable c s (addr_Address a) 3) = None))"
proof -
  obtain dl fu st1 es1 where p: "probe c st a = ((dl, fu), st1, es1)" by (metis prod.exhaust)
  from assms p have l: "Deliverable l = dl" "FullInbox l = fu" by (auto simp: address_step_def)
  from p have "\<not> (dl \<and> fu)
     \<and> (fu \<longrightarrow> \<not> catchAll st
           \<and> (\<exists>s. deliverabler st = Some s \<and> fst (IsDeliverable c s (addr_Address a) 3) = Some ErrFullInbox))
     \<and> (dl \<longrightarrow> catchAll st
           \<or> (\<exists>s. deliverabler st = Some s \<and> fst (IsDeliverable c s (addr_Address a) 3) = None))"
    by (auto simp: probe_def split: if_splits option.splits prod.splits)
  with l show ?thesis by simp
qed

section \<open>The claims\<close>

text \<open>
  C1. The claim: in every Lookup, \<^verbatim>\<open>HostExists\<close> false implies \<^verbatim>\<open>Deliverable\<close>,
  \<^verbatim>\<open>FullInbox\<close> and \<^verbatim>\<open>CatchAll\<close> false and no error text, also after a host-absent
  downgrade in the middle of a batch. The code at a batch of two addresses of one
  domain whose session opens, where the probe of the first address fails as "no such
  host" and the probe of the second succeeds: the second Lookup is sent with
  \<^verbatim>\<open>HostExists\<close> false and \<^verbatim>\<open>Deliverable\<close> true. (Lemmas \<open>host_absent_at_open\<close> and
  \<open>host_absent_at_probe\<close> are the part of the claim the code keeps.)
\<close>

theorem stale_host_absent_flag:
  "returned (Verify mock mock_verifier fifo [mk ''gone'' ''good.example'', mk ''b'' ''good.example''])
     = Some [\<lparr>Address = ''gone@good.example'', Username = ''gone'', Domain' = ''good.example'',
              HostExists = False, Deliverable = False, FullInbox = False, CatchAll = False,
              Disposable = False, Gravatar = False, Error = [], ErrorDetails = []\<rparr>,
             \<lparr>Address = ''b@good.example'', Username = ''b'', Domain' = ''good.example'',
              HostExists = False, Deliverable = True, FullInbox = False, CatchAll = False,
              Disposable = False, Gravatar = False, Error = [], ErrorDetails = []\<rparr>]"
  by code_simp

text \<open>
  C2. For every address of a batch whose probe is made (no catch-all, a session
  \<open>s\<close> in the state the earlier addresses of the batch left it) and fails with
  \<^verbatim>\<open>ErrFullInbox\<close>: the worker's Lookup for that address has \<^verbatim>\<open>FullInbox\<close> true,
  \<^verbatim>\<open>Deliverable\<close> false and both error strings empty. The worker leaves the error
  strings to \<^verbatim>\<open>parseRCPTErr\<close>, which is taken from the spec.
\<close>

theorem full_inbox_Lookup:
  assumes cls: "parseRCPTErr c = parseRCPTErr_spec summary"
    and i: "i < length (a0 # as)"
    and before: "addresses_loop c (fst (open_domain c v (addr_Domain a0))) (take i (a0 # as)) = (st, ls0, es0)"
    and nc: "\<not> catchAll st" and d: "deliverabler st = Some s"
    and pr: "fst (IsDeliverable c s (addr_Address ((a0 # as) ! i)) 3) = Some ErrFullInbox"
  shows "\<exists>ls es. worker_job c v (a0 # as) = Some (ls, es) \<and> length ls = length (a0 # as)
           \<and> Address (ls ! i) = addr_Address ((a0 # as) ! i)
           \<and> FullInbox (ls ! i) \<and> \<not> Deliverable (ls ! i)
           \<and> Error (ls ! i) = [] \<and> ErrorDetails (ls ! i) = []"
proof -
  define j where "j = a0 # as"
  obtain st0 e0 where o: "open_domain c v (addr_Domain a0) = (st0, e0)" by (metis prod.exhaust)
  obtain st1 l es1 where s: "address_step c st (j ! i) = (st1, l, es1)" by (metis prod.exhaust)
  obtain st2 ls2 es2 where r: "addresses_loop c st1 (drop (Suc i) j) = (st2, ls2, es2)" by (metis prod.exhaust)
  from i have split: "j = take i j @ (j ! i # drop (Suc i) j)"
    unfolding j_def by (rule id_take_nth_drop)
  from before o have b: "addresses_loop c st0 (take i j) = (st, ls0, es0)" by (simp add: j_def)
  have "addresses_loop c st0 j = (st2, ls0 @ l # ls2, es0 @ es1 @ es2)"
    by (subst split, subst addresses_loop_append) (simp add: b s r)
  with o have w: "worker_job c v (a0 # as) = Some (ls0 @ l # ls2, e0 @ (es0 @ es1 @ es2) @ job_end st2 (addr_Domain a0))"
    by (simp add: worker_job_def j_def)
  from addresses_loop_length[OF b] i have l0: "length ls0 = i" by (simp add: j_def)
  from addresses_loop_length[OF r] l0 i have len: "length (ls0 @ l # ls2) = length (a0 # as)"
    by (simp add: j_def)
  from l0 have nth: "(ls0 @ l # ls2) ! i = l" by (simp add: nth_append)
  from address_step_full_inbox[OF cls nc d _ s] pr
  have "Address l = addr_Address (j ! i) \<and> FullInbox l \<and> \<not> Deliverable l \<and> Error l = [] \<and> ErrorDetails l = []"
    by (simp add: j_def)
  with w len nth show ?thesis by (simp add: j_def)
qed

text \<open>
  C2 on a batch of two addresses: the first is deliverable, the second has a full
  mailbox.
\<close>

theorem full_inbox_Lookup_witness:
  "parseRCPTErr mock = parseRCPTErr_spec mock_summary
   \<and> 1 < length [mk ''a'' ''good.example'', mk ''full'' ''good.example'']
   \<and> addresses_loop mock (fst (open_domain mock mock_verifier (addr_Domain (mk ''a'' ''good.example''))))
         (take 1 [mk ''a'' ''good.example'', mk ''full'' ''good.example''])
       = (\<lparr>deliverabler = Some 1, disposable = False, catchAll = False, hostExists = True,
            basicErr = None, detailErr = None\<rparr>,
          [\<lparr>Address = ''a@good.example'', Username = ''a'', Domain' = ''good.example'',
            HostExists = True, Deliverable = True, FullInbox = False, CatchAll = False,
            Disposable = False, Gravatar = False, Error = [], ErrorDetails = []\<rparr>],
          [IsDeliverableCall ''a@good.example'', HasGravatarCall ''a@good.example''])
   \<and> fst (IsDeliverable mock 1 (addr_Address ([mk ''a'' ''good.example'', mk ''full'' ''good.example''] ! 1)) 3)
       = Some ErrFullInbox
   \<and> (\<exists>ls es. worker_job mock mock_verifier [mk ''a'' ''good.example'', mk ''full'' ''good.example''] = Some (ls, es)
         \<and> length ls = 2
         \<and> Address (ls ! 1) = ''full@good.example''
         \<and> FullInbox (ls ! 1) \<and> \<not> Deliverable (ls ! 1)
         \<and> Error (ls ! 1) = [] \<and> ErrorDetails (ls ! 1) = [])"
proof -
  let ?a0 = "mk ''a'' ''good.example''" and ?a1 = "mk ''full'' ''good.example''"
  let ?st = "\<lparr>deliverabler = Some (1::nat), disposable = False, catchAll = False, hostExists = True,
            basicErr = None, detailErr = None\<rparr>"
  have h1: "parseRCPTErr mock = parseRCPTErr_spec mock_summary" by (simp add: mock_def)
  have h2: "1 < length (?a0 # [?a1])" by simp
  have h3: "addresses_loop mock (fst (open_domain mock mock_verifier (addr_Domain ?a0))) (take 1 (?a0 # [?a1]))
       = (?st,
          [\<lparr>Address = ''a@good.example'', Username = ''a'', Domain' = ''good.example'',
            HostExists = True, Deliverable = True, FullInbox = False, CatchAll = False,
            Disposable = False, Gravatar = False, Error = [], ErrorDetails = []\<rparr>],
          [IsDeliverableCall ''a@good.example'', HasGravatarCall ''a@good.example''])"
    by (simp add: open_domain_def address_step_def probe_def mock_def mk_def errStr_def)
  have h4: "\<not> catchAll ?st" and h5: "deliverabler ?st = Some 1" by simp_all
  have h6: "fst (IsDeliverable mock 1 (addr_Address ((?a0 # [?a1]) ! 1)) 3) = Some ErrFullInbox"
    by (simp add: mock_def mk_def)
  from full_inbox_Lookup[OF h1 h2 h3 h4 h5 h6] h1 h3 h6 show ?thesis
    by (simp add: mk_def numeral_2_eq_2)
qed

text \<open>
  C3. The claim: the error pair of a generic probe failure is on that address's Lookup
  only. The code at a batch of two addresses of one domain, where the probe of the
  first address is refused with a generic error and the probe of the second succeeds:
  the second Lookup is deliverable and carries the error pair of the first. (Lemmas
  \<open>generic_error_attached\<close> and \<open>success_keeps_batch_variables\<close> are the two steps.)
\<close>

theorem stale_error_pair:
  "returned (Verify mock mock_verifier fifo [mk ''blocked'' ''good.example'', mk ''b'' ''good.example''])
     = Some [\<lparr>Address = ''blocked@good.example'', Username = ''blocked'', Domain' = ''good.example'',
              HostExists = True, Deliverable = False, FullInbox = False, CatchAll = False,
              Disposable = False, Gravatar = False, Error = ''mail server error'',
              ErrorDetails = ''550 blocked''\<rparr>,
             \<lparr>Address = ''b@good.example'', Username = ''b'', Domain' = ''good.example'',
              HostExists = True, Deliverable = True, FullInbox = False, CatchAll = False,
              Disposable = False, Gravatar = False, Error = ''mail server error'',
              ErrorDetails = ''550 blocked''\<rparr>]"
  by code_simp

text \<open>
  C4, as amended. For every input list of N addresses, every way the runtime ranges over
  the map and schedules the workers, and a configured maximum worker count of at least
  one (or an empty list), \<^verbatim>\<open>Verify\<close> returns, and returns exactly N Lookups: one per
  input address, none dropped, none twice, however the addresses are spread over
  domains.
\<close>

theorem Verify_one_Lookup_per_address:
  assumes "1 \<le> maxWorkerCount v \<or> addresses = []"
  shows "\<exists>ls. returned (Verify c v sch addresses) = Some ls \<and> length ls = length addresses
           \<and> mset (map lookup_id ls) = mset (map address_id addresses)"
proof (cases "group_by_domain addresses = []")
  case True
  with group_by_domain_mset[of addresses] have "addresses = []" by simp
  with True show ?thesis by (simp add: Verify_def)
next
  case False
  define dq where "dq = group_by_domain addresses"
  define n where "n = (if int (length dq) < maxWorkerCount v then int (length dq) else maxWorkerCount v)"
  define p0 :: "'a pool" where "p0 = \<lparr>jobs = map snd (pick_order (range_order sch) dq),
     workers = replicate (nat n) Idle, results = [], calls = [], panicked = False\<rparr>"
  define p where "p = run_pool c v (turn sch) 0 p0"
  define I :: "'a pool \<Rightarrow> bool" where "I q \<longleftrightarrow> owed q = owed p0 \<and> \<not> panicked q
     \<and> list_all (\<lambda>j. j \<noteq> []) (jobs q) \<and> length (workers q) = length (workers p0)" for q
  from False have "addresses \<noteq> []" by (auto simp: group_by_domain_def)
  with False assms have n: "0 < nat n" by (auto simp: n_def dq_def)
  have "mset (pick_order (range_order sch) dq) = mset dq" by (rule pick_order_mset)
  then have perm: "mset (map snd (pick_order (range_order sch) dq)) = mset (map snd dq)"
    by (metis mset_map)
  have "list_all (\<lambda>j. j \<noteq> []) (map snd dq)"
    using group_by_domain_nonempty[of addresses] by (simp add: dq_def list_all_iff)
  then have ne0: "list_all (\<lambda>j. j \<noteq> []) (jobs p0)"
    using perm by (metis (mono_tags, lifting) list_all_iff mset_eq_setD p0_def pool.select_convs(1))
  have "mset (concat (map snd (pick_order (range_order sch) dq))) = mset (concat (map snd dq))"
    using perm by (rule mset_concat_cong)
  then have a: "mset (concat (jobs p0)) = mset addresses"
    using group_by_domain_mset[of addresses] by (simp add: p0_def dq_def)
  have b: "sum_list (map owes (workers p0)) = {#}"
    by (rule idle_owe_nothing) (simp add: p0_def)
  have c0: "results p0 = []" by (simp add: p0_def)
  have owed0: "owed p0 = mset (map address_id addresses)"
    by (simp add: owed_def a b c0)
  have "I p" unfolding p_def
  proof (rule run_pool_inv)
    show "I p0" using ne0 by (simp add: I_def) (simp add: p0_def)
  next
    fix q k assume "I q" "k < length (workers q)" "can_move q k" "\<not> panicked q"
    then show "I (worker_step c v k q)"
      using worker_step_owed[of k q c v] by (simp add: I_def)
  qed
  moreover have "runnable p = []" unfolding p_def by (rule run_pool_rest)
  ultimately have rest: "jobs p = []" "\<forall>k < length (workers p). workers p ! k = Idle" and np: "\<not> panicked p"
    and ow: "owed p = owed p0"
    using at_rest[of p] n by (simp_all add: I_def p0_def)
  from ow rest owed0 have ids: "mset (map lookup_id (results p)) = mset (map address_id addresses)"
    by (simp add: owed_def idle_owe_nothing)
  then have "size (mset (map lookup_id (results p))) = size (mset (map address_id addresses))" by simp
  then have len: "length (results p) = length addresses" by simp
  have "returned (Verify c v sch addresses) =
      (if panicked p then None
       else if length (results p) < length addresses then None
       else Some (take (length addresses) (results p)))"
    unfolding p_def p0_def n_def dq_def using False by (simp add: Verify_def Let_def)
  with np len have "returned (Verify c v sch addresses) = Some (results p)" by simp
  with ids len show ?thesis by simp
qed

text \<open>
  The amended C4 on the spec's scenario: two addresses of a host that answers and one
  of a host that does not exist, two workers.
\<close>

theorem Verify_one_Lookup_per_address_witness:
  "1 \<le> maxWorkerCount mock_verifier \<and>
   (\<exists>ls. returned (Verify mock mock_verifier fifo
             [mk ''a'' ''good.example'', mk ''c'' ''missing.invalid'', mk ''b'' ''good.example'']) = Some ls
        \<and> length ls = 3
        \<and> mset (map lookup_id ls) = mset (map address_id
             [mk ''a'' ''good.example'', mk ''c'' ''missing.invalid'', mk ''b'' ''good.example'']))"
proof -
  have h: "1 \<le> maxWorkerCount mock_verifier" by (simp add: mock_verifier_def)
  then have "1 \<le> maxWorkerCount mock_verifier
      \<or> [mk ''a'' ''good.example'', mk ''c'' ''missing.invalid'', mk ''b'' ''good.example''] = []"
    by simp
  from Verify_one_Lookup_per_address[OF this, of mock fifo] h show ?thesis
    by (simp add: numeral_3_eq_3)
qed

text \<open>
  C4 as stated fails: with a configured maximum of zero workers none is started, the
  job is queued and never received, and \<^verbatim>\<open>Verify\<close> blocks on the first receive from
  the results channel. It returns no list at all for the one input address.
\<close>

theorem Verify_blocks_without_workers:
  "\<not> (\<exists>ls. returned (Verify mock (mock_verifier\<lparr>maxWorkerCount := 0\<rparr>) fifo [mk ''a'' ''good.example'']) = Some ls
        \<and> length ls = length [mk ''a'' ''good.example''])"
  by (simp add: Verify_def group_by_domain_def run_pool.simps runnable_def mk_def mock_verifier_def fifo_def)

text \<open>
  C5. Every Lookup that \<^verbatim>\<open>Verify\<close> returns, under every schedule: if \<^verbatim>\<open>CatchAll\<close> is
  true then \<^verbatim>\<open>Deliverable\<close> is true.
\<close>

theorem catchAll_implies_deliverable:
  assumes "returned (Verify c v sch addresses) = Some ls" and "l \<in> set ls" and "CatchAll l"
  shows "Deliverable l"
proof -
  have "list_all (\<lambda>l. CatchAll l \<longrightarrow> Deliverable l) ls"
    using _ assms(1) by (rule Verify_results_from_steps) (simp add: address_step_flags)
  with assms(2,3) show ?thesis by (simp add: list_all_iff)
qed

text \<open>
  C5 on one address of the catch-all domain.
\<close>

theorem catchAll_implies_deliverable_witness:
  "returned (Verify mock mock_verifier fifo [mk ''x'' ''catchall.example''])
     = Some [\<lparr>Address = ''x@catchall.example'', Username = ''x'', Domain' = ''catchall.example'',
              HostExists = True, Deliverable = True, FullInbox = False, CatchAll = True,
              Disposable = False, Gravatar = False, Error = [], ErrorDetails = []\<rparr>]
   \<and> CatchAll \<lparr>Address = ''x@catchall.example'', Username = ''x'', Domain' = ''catchall.example'',
              HostExists = True, Deliverable = True, FullInbox = False, CatchAll = True,
              Disposable = False, Gravatar = False, Error = [], ErrorDetails = []\<rparr>
   \<and> Deliverable \<lparr>Address = ''x@catchall.example'', Username = ''x'', Domain' = ''catchall.example'',
              HostExists = True, Deliverable = True, FullInbox = False, CatchAll = True,
              Disposable = False, Gravatar = False, Error = [], ErrorDetails = []\<rparr>"
proof -
  let ?l = "\<lparr>Address = ''x@catchall.example'', Username = ''x'', Domain' = ''catchall.example'',
              HostExists = True, Deliverable = True, FullInbox = False, CatchAll = True,
              Disposable = False, Gravatar = False, Error = [], ErrorDetails = []\<rparr>"
  have e: "returned (Verify mock mock_verifier fifo [mk ''x'' ''catchall.example'']) = Some [?l]"
    by code_simp
  have "Deliverable ?l" by (rule catchAll_implies_deliverable[OF e]) simp_all
  with e show ?thesis by simp
qed

text \<open>
  C6. For every batch whose session open gives a session, the worker's calls for the
  batch end with the one \<^verbatim>\<open>Close\<close> of that session: no other close is among them, every
  address of the batch has been through the loop body before it (its Lookup sent, one
  per address), whatever the catch-all probe and the per-address probes answered.
\<close>

theorem session_closed_once:
  assumes "NewDeliverabler c (addr_Domain a0) (hostname v) (sourceAddr v) (client_Timeout v) = (Some s, err)"
  shows "\<exists>ls pre. worker_job c v (a0 # as) = Some (ls, pre @ [CloseCall (addr_Domain a0)])
           \<and> length ls = length (a0 # as)
           \<and> (\<forall>d. CloseCall d \<notin> set pre)
           \<and> list_all (\<lambda>a. HasGravatarCall (addr_Address a) \<in> set pre) (a0 # as)"
proof -
  obtain st es0 where o: "open_domain c v (addr_Domain a0) = (st, es0)" by (metis prod.exhaust)
  obtain st' ls es1 where r: "addresses_loop c st (a0 # as) = (st', ls, es1)" by (metis prod.exhaust)
  from open_domain_events[OF o] assms have d: "deliverabler st \<noteq> None" by simp
  with addresses_loop_frame[OF r] have "deliverabler st' \<noteq> None" by simp
  then have e: "job_end st' (addr_Domain a0) = [CloseCall (addr_Domain a0)]"
    by (auto simp: job_end_def)
  from o r e have "worker_job c v (a0 # as) = Some (ls, (es0 @ es1) @ [CloseCall (addr_Domain a0)])"
    by (simp add: worker_job_def)
  moreover from addresses_loop_length[OF r] have "length ls = length (a0 # as)" .
  moreover from open_domain_events[OF o] addresses_loop_events[OF r]
  have "(\<forall>d. CloseCall d \<notin> set (es0 @ es1))
      \<and> list_all (\<lambda>a. HasGravatarCall (addr_Address a) \<in> set (es0 @ es1)) (a0 # as)"
    by (auto simp: list_all_iff)
  ultimately show ?thesis by blast
qed

text \<open>
  C6 on a batch whose first probe fails with a generic error.
\<close>

theorem session_closed_once_witness:
  "NewDeliverabler mock (addr_Domain (mk ''blocked'' ''good.example'')) (hostname mock_verifier)
      (sourceAddr mock_verifier) (client_Timeout mock_verifier) = (Some 0, None)
   \<and> (\<exists>ls pre. worker_job mock mock_verifier [mk ''blocked'' ''good.example'', mk ''b'' ''good.example'']
           = Some (ls, pre @ [CloseCall ''good.example''])
         \<and> length ls = 2
         \<and> (\<forall>d. CloseCall d \<notin> set pre)
         \<and> list_all (\<lambda>a. HasGravatarCall (addr_Address a) \<in> set pre)
              [mk ''blocked'' ''good.example'', mk ''b'' ''good.example''])"
proof -
  have h: "NewDeliverabler mock (addr_Domain (mk ''blocked'' ''good.example'')) (hostname mock_verifier)
      (sourceAddr mock_verifier) (client_Timeout mock_verifier) = (Some 0, None)"
    by (simp add: mock_def mk_def)
  have d: "addr_Domain (mk ''blocked'' ''good.example'') = ''good.example''" by (simp add: mk_def)
  from session_closed_once[OF h, of "[mk ''b'' ''good.example'']"] h show ?thesis
    unfolding d by (simp add: numeral_2_eq_2)
qed

text \<open>
  C7. For every batch flagged as catch-all after line 137, every Lookup of the batch
  has \<^verbatim>\<open>Deliverable\<close> (and \<^verbatim>\<open>CatchAll\<close>) true, there is one Lookup per address, and
  \<^verbatim>\<open>IsDeliverable\<close> is not called once.
\<close>

theorem catch_all_batch_skips_probe:
  assumes "catchAll (fst (open_domain c v (addr_Domain a0)))"
  shows "\<exists>ls es. worker_job c v (a0 # as) = Some (ls, es)
           \<and> length ls = length (a0 # as)
           \<and> list_all (\<lambda>l. Deliverable l \<and> CatchAll l) ls
           \<and> (\<forall>x. IsDeliverableCall x \<notin> set es)"
proof -
  obtain st es0 where o: "open_domain c v (addr_Domain a0) = (st, es0)" by (metis prod.exhaust)
  obtain st' ls es1 where r: "addresses_loop c st (a0 # as) = (st', ls, es1)" by (metis prod.exhaust)
  from assms o have ca: "catchAll st" by simp
  have "worker_job c v (a0 # as) = Some (ls, es0 @ es1 @ job_end st' (addr_Domain a0))"
    using o r by (simp add: worker_job_def)
  moreover from addresses_loop_length[OF r] have "length ls = length (a0 # as)" .
  moreover from addresses_loop_catchAll[OF r ca] open_domain_events[OF o]
  have "list_all (\<lambda>l. Deliverable l \<and> CatchAll l) ls"
    and "\<forall>x. IsDeliverableCall x \<notin> set (es0 @ es1 @ job_end st' (addr_Domain a0))"
    by (auto simp: job_end_def split: option.splits)
  ultimately show ?thesis by blast
qed

text \<open>
  C7 on two addresses of the catch-all domain.
\<close>

theorem catch_all_batch_skips_probe_witness:
  "catchAll (fst (open_domain mock mock_verifier (addr_Domain (mk ''x'' ''catchall.example''))))
   \<and> (\<exists>ls es. worker_job mock mock_verifier [mk ''x'' ''catchall.example'', mk ''y'' ''catchall.example'']
           = Some (ls, es)
         \<and> length ls = 2
         \<and> list_all (\<lambda>l. Deliverable l \<and> CatchAll l) ls
         \<and> (\<forall>x. IsDeliverableCall x \<notin> set es))"
proof -
  have h: "catchAll (fst (open_domain mock mock_verifier (addr_Domain (mk ''x'' ''catchall.example''))))"
    by (simp add: open_domain_def mock_def mk_def)
  from catch_all_batch_skips_probe[OF h, of "[mk ''y'' ''catchall.example'']"] h show ?thesis
    by (simp add: numeral_2_eq_2)
qed

text \<open>
  C8, as amended. The number of workers \<^verbatim>\<open>Verify\<close> starts is
  max(0, min(configuredMax, distinctDomainCount)): the loop of line 92 starts no worker
  when \<^verbatim>\<open>workers\<close> is negative, and the early return of line 76 starts none either.
\<close>

theorem workers_started:
  "int (started (Verify c v sch addresses)) =
     max 0 (min (maxWorkerCount v) (int (card (addr_Domain ` set addresses))))"
proof (cases "group_by_domain addresses = []")
  case True
  with group_by_domain_count[of addresses] have "card (addr_Domain ` set addresses) = 0" by simp
  with True show ?thesis by (simp add: Verify_def)
next
  case False
  with group_by_domain_count[of addresses] show ?thesis
    by (simp add: Verify_def Let_def min_def max_def)
qed

text \<open>
  C8 as stated fails for a negative configured maximum: with -1 and one domain no
  worker is started, while min(-1, 1) is -1.
\<close>

theorem workers_started_counterexample:
  "int (started (Verify mock (mock_verifier\<lparr>maxWorkerCount := - 1\<rparr>) fifo [mk ''a'' ''good.example'']))
     \<noteq> min (maxWorkerCount (mock_verifier\<lparr>maxWorkerCount := - 1\<rparr>))
           (int (card (addr_Domain ` set [mk ''a'' ''good.example''])))"
  by (simp add: Verify_def group_by_domain_def mock_verifier_def mk_def)

text \<open>
  C9. On the empty input \<^verbatim>\<open>Verify\<close> returns the empty list, makes no channel, starts no
  worker and no collaborator is called, whatever the collaborators, the configuration
  and the schedule are.
\<close>

theorem Verify_empty:
  "Verify c v sch [] = \<lparr>returned = Some [], channels = None, started = 0, collaborator_calls = []\<rparr>"
  by (simp add: Verify_def group_by_domain_def)

text \<open>
  C10. The loop body, in every state of the batch variables and for every address:
  the Lookup it builds never has \<^verbatim>\<open>Deliverable\<close> and \<^verbatim>\<open>FullInbox\<close> both true;
  \<^verbatim>\<open>FullInbox\<close> is true only when the probe was made and failed (with \<^verbatim>\<open>ErrFullInbox\<close>);
  \<^verbatim>\<open>Deliverable\<close> is true only when the probe was skipped for a catch-all batch or was
  made and succeeded. And every Lookup that \<^verbatim>\<open>Verify\<close> returns, under every schedule,
  is a Lookup built by the loop body for which all of this holds.
\<close>

theorem deliverable_excludes_fullInbox:
  "(address_step c st a = (st', l, es) \<longrightarrow>
      \<not> (Deliverable l \<and> FullInbox l)
      \<and> (FullInbox l \<longrightarrow> \<not> catchAll st
            \<and> (\<exists>s. deliverabler st = Some s \<and> fst (IsDeliverable c s (addr_Address a) 3) = Some ErrFullInbox))
      \<and> (Deliverable l \<longrightarrow> catchAll st
            \<or> (\<exists>s. deliverabler st = Some s \<and> fst (IsDeliverable c s (addr_Address a) 3) = None)))
   \<and> (returned (Verify c v sch addresses) = Some ls \<longrightarrow> r \<in> set ls \<longrightarrow>
      \<not> (Deliverable r \<and> FullInbox r)
      \<and> (\<exists>bv x bv' xs. address_step c bv x = (bv', r, xs)
            \<and> (FullInbox r \<longrightarrow> \<not> catchAll bv
                  \<and> (\<exists>s. deliverabler bv = Some s \<and> fst (IsDeliverable c s (addr_Address x) 3) = Some ErrFullInbox))
            \<and> (Deliverable r \<longrightarrow> catchAll bv
                  \<or> (\<exists>s. deliverabler bv = Some s \<and> fst (IsDeliverable c s (addr_Address x) 3) = None))))"
proof -
  have A: "address_step c st a = (st', l, es) \<longrightarrow>
      \<not> (Deliverable l \<and> FullInbox l)
      \<and> (FullInbox l \<longrightarrow> \<not> catchAll st
            \<and> (\<exists>s. deliverabler st = Some s \<and> fst (IsDeliverable c s (addr_Address a) 3) = Some ErrFullInbox))
      \<and> (Deliverable l \<longrightarrow> catchAll st
            \<or> (\<exists>s. deliverabler st = Some s \<and> fst (IsDeliverable c s (addr_Address a) 3) = None))"
    by (intro impI) (rule address_step_only_when)
  let ?P = "\<lambda>r. \<not> (Deliverable r \<and> FullInbox r)
      \<and> (\<exists>bv x bv' xs. address_step c bv x = (bv', r, xs)
            \<and> (FullInbox r \<longrightarrow> \<not> catchAll bv
                  \<and> (\<exists>s. deliverabler bv = Some s \<and> fst (IsDeliverable c s (addr_Address x) 3) = Some ErrFullInbox))
            \<and> (Deliverable r \<longrightarrow> catchAll bv
                  \<or> (\<exists>s. deliverabler bv = Some s \<and> fst (IsDeliverable c s (addr_Address x) 3) = None)))"
  have B: "returned (Verify c v sch addresses) = Some ls \<longrightarrow> r \<in> set ls \<longrightarrow> ?P r"
  proof (intro impI)
    assume ret: "returned (Verify c v sch addresses) = Some ls" and r: "r \<in> set ls"
    have "list_all ?P ls"
    proof (rule Verify_results_from_steps[OF _ ret])
      fix bv :: "'a batch_vars" and x bv' q xs
      assume s: "address_step c bv x = (bv', q, xs)"
      from address_step_only_when[OF s] have "\<not> (Deliverable q \<and> FullInbox q)" by simp
      moreover from address_step_only_when[OF s] s
      have "\<exists>bv x bv' xs. address_step c bv x = (bv', q, xs)
            \<and> (FullInbox q \<longrightarrow> \<not> catchAll bv
                  \<and> (\<exists>s. deliverabler bv = Some s \<and> fst (IsDeliverable c s (addr_Address x) 3) = Some ErrFullInbox))
            \<and> (Deliverable q \<longrightarrow> catchAll bv
                  \<or> (\<exists>s. deliverabler bv = Some s \<and> fst (IsDeliverable c s (addr_Address x) 3) = None))"
        by (intro exI[of _ bv] exI[of _ x] exI[of _ bv'] exI[of _ xs]) simp
      ultimately show "?P q" by (rule conjI)
    qed
    with r show "?P r" by (simp add: list_all_iff)
  qed
  from A B show ?thesis by (rule conjI)
qed

text \<open>
  C10 on the mock session: an address whose mailbox is full (through \<^verbatim>\<open>Verify\<close> and
  through the loop body), and a deliverable address whose probe answers nil.
\<close>

theorem deliverable_excludes_fullInbox_witness:
  "returned (Verify mock mock_verifier fifo [mk ''full'' ''good.example''])
     = Some [\<lparr>Address = ''full@good.example'', Username = ''full'', Domain' = ''good.example'',
              HostExists = True, Deliverable = False, FullInbox = True, CatchAll = False,
              Disposable = False, Gravatar = False, Error = [], ErrorDetails = []\<rparr>]
   \<and> \<not> (Deliverable \<lparr>Address = ''full@good.example'', Username = ''full'', Domain' = ''good.example'',
              HostExists = True, Deliverable = False, FullInbox = True, CatchAll = False,
              Disposable = False, Gravatar = False, Error = [], ErrorDetails = []\<rparr>
        \<and> FullInbox \<lparr>Address = ''full@good.example'', Username = ''full'', Domain' = ''good.example'',
              HostExists = True, Deliverable = False, FullInbox = True, CatchAll = False,
              Disposable = False, Gravatar = False, Error = [], ErrorDetails = []\<rparr>)
   \<and> address_step mock
         \<lparr>deliverabler = Some 0, disposable = False, catchAll = False, hostExists = True,
          basicErr = None, detailErr = None\<rparr>
         (mk ''full'' ''good.example'')
       = (\<lparr>deliverabler = Some 1, disposable = False, catchAll = False, hostExists = True,
           basicErr = None, detailErr = None\<rparr>,
          \<lparr>Address = ''full@good.example'', Username = ''full'', Domain' = ''good.example'',
              HostExists = True, Deliverable = False, FullInbox = True, CatchAll = False,
              Disposable = False, Gravatar = False, Error = [], ErrorDetails = []\<rparr>,
          [IsDeliverableCall ''full@good.example'', HasGravatarCall ''full@good.example''])
   \<and> (\<exists>s. deliverabler \<lparr>deliverabler = Some (0::nat), disposable = False, catchAll = False,
              hostExists = True, basicErr = None, detailErr = None\<rparr> = Some s
          \<and> fst (IsDeliverable mock s (addr_Address (mk ''full'' ''good.example'')) 3) = Some ErrFullInbox)
   \<and> address_step mock
         \<lparr>deliverabler = Some 0, disposable = False, catchAll = False, hostExists = True,
          basicErr = None, detailErr = None\<rparr>
         (mk ''a'' ''good.example'')
       = (\<lparr>deliverabler = Some 1, disposable = False, catchAll = False, hostExists = True,
           basicErr = None, detailErr = None\<rparr>,
          \<lparr>Address = ''a@good.example'', Username = ''a'', Domain' = ''good.example'',
              HostExists = True, Deliverable = True, FullInbox = False, CatchAll = False,
              Disposable = False, Gravatar = False, Error = [], ErrorDetails = []\<rparr>,
          [IsDeliverableCall ''a@good.example'', HasGravatarCall ''a@good.example''])
   \<and> (\<exists>s. deliverabler \<lparr>deliverabler = Some (0::nat), disposable = False, catchAll = False,
              hostExists = True, basicErr = None, detailErr = None\<rparr> = Some s
          \<and> fst (IsDeliverable mock s (addr_Address (mk ''a'' ''good.example'')) 3) = None)"
proof -
  let ?st = "\<lparr>deliverabler = Some (0::nat), disposable = False, catchAll = False, hostExists = True,
          basicErr = None, detailErr = None\<rparr>"
  let ?st1 = "\<lparr>deliverabler = Some (1::nat), disposable = False, catchAll = False, hostExists = True,
          basicErr = None, detailErr = None\<rparr>"
  let ?lf = "\<lparr>Address = ''full@good.example'', Username = ''full'', Domain' = ''good.example'',
              HostExists = True, Deliverable = False, FullInbox = True, CatchAll = False,
              Disposable = False, Gravatar = False, Error = [], ErrorDetails = []\<rparr>"
  let ?la = "\<lparr>Address = ''a@good.example'', Username = ''a'', Domain' = ''good.example'',
              HostExists = True, Deliverable = True, FullInbox = False, CatchAll = False,
              Disposable = False, Gravatar = False, Error = [], ErrorDetails = []\<rparr>"
  have e: "returned (Verify mock mock_verifier fifo [mk ''full'' ''good.example'']) = Some [?lf]"
    by code_simp
  have sf: "address_step mock ?st (mk ''full'' ''good.example'')
      = (?st1, ?lf, [IsDeliverableCall ''full@good.example'', HasGravatarCall ''full@good.example''])"
    by (simp add: address_step_def probe_def mock_def mk_def errStr_def)
  have sa: "address_step mock ?st (mk ''a'' ''good.example'')
      = (?st1, ?la, [IsDeliverableCall ''a@good.example'', HasGravatarCall ''a@good.example''])"
    by (simp add: address_step_def probe_def mock_def mk_def errStr_def)
  from deliverable_excludes_fullInbox[of mock ?st "mk ''full'' ''good.example''" ?st1 ?lf
      "[IsDeliverableCall ''full@good.example'', HasGravatarCall ''full@good.example'']"
      mock_verifier fifo "[mk ''full'' ''good.example'']" "[?lf]" ?lf] e sf
  have f: "\<not> (Deliverable ?lf \<and> FullInbox ?lf)"
    and pf: "\<exists>s. deliverabler ?st = Some s
          \<and> fst (IsDeliverable mock s (addr_Address (mk ''full'' ''good.example'')) 3) = Some ErrFullInbox"
    by simp_all
  from deliverable_excludes_fullInbox[of mock ?st "mk ''a'' ''good.example''" ?st1 ?la
      "[IsDeliverableCall ''a@good.example'', HasGravatarCall ''a@good.example'']"
      mock_verifier fifo "[mk ''full'' ''good.example'']" "[?lf]" ?lf] sa
  have pa: "\<exists>s. deliverabler ?st = Some s
          \<and> fst (IsDeliverable mock s (addr_Address (mk ''a'' ''good.example'')) 3) = None"
    by simp
  from e f sf pf sa pa show ?thesis by (intro conjI)
qed

end
